theory Spec2Isabelle
  imports Main "HOL-Library.Sublist" "HOL-Library.Multiset"
begin

section \<open>Rendering of Python values inside f-strings\<close>

text \<open>Python's \<open>str\<close> of a non-negative integer: its decimal digits, most significant first.\<close>

function str_nat :: "nat \<Rightarrow> string" where
  "str_nat n = (if n < 10 then [char_of (48 + n)]
                else str_nat (n div 10) @ [char_of (48 + n mod 10)])"
  by pat_completeness auto
termination
  by (relation "measure id") auto

declare str_nat.simps [simp del]

definition str_int :: "int \<Rightarrow> string" where
  "str_int i = (if i < 0 then CHR ''-'' # str_nat (nat (- i)) else str_nat (nat i))"

section \<open>utils.py: get_research_topic\<close>

text \<open>
  A message of the history. \<open>HumanMessage\<close> and \<open>AIMessage\<close> are the two classes the
  function tests with \<open>isinstance\<close>; every other member of \<open>AnyMessage\<close> (system, tool,
  function, chat messages) is \<open>OtherMessage\<close>.
\<close>

datatype message = HumanMessage string | AIMessage string | OtherMessage string

fun content :: "message \<Rightarrow> string" where
  "content (HumanMessage c) = c"
| "content (AIMessage c) = c"
| "content (OtherMessage c) = c"

text \<open>The body of the \<open>for message in messages\<close> loop, with the accumulator explicit.\<close>

fun topic_loop :: "string \<Rightarrow> message list \<Rightarrow> string" where
  "topic_loop research_topic [] = research_topic"
| "topic_loop research_topic (HumanMessage c # ms) =
     topic_loop (research_topic @ ''User: '' @ c @ [CHR 0x0A]) ms"
| "topic_loop research_topic (AIMessage c # ms) =
     topic_loop (research_topic @ ''Assistant: '' @ c @ [CHR 0x0A]) ms"
| "topic_loop research_topic (OtherMessage c # ms) = topic_loop research_topic ms"

definition get_research_topic :: "message list \<Rightarrow> string" where
  "get_research_topic messages =
     (if length messages = 1 then content (last messages)
      else topic_loop [] messages)"

text \<open>
  The spec's words, for comparison: every message of the history, prefixed by its role
  and followed by a newline. The spec names no role for a message that is neither the
  user's nor the assistant's; \<open>other_role\<close> stands for whatever that role is called.
\<close>

fun role_prefixed :: "string \<Rightarrow> message \<Rightarrow> string" where
  "role_prefixed other_role (HumanMessage c) = ''User: '' @ c @ [CHR 0x0A]"
| "role_prefixed other_role (AIMessage c) = ''Assistant: '' @ c @ [CHR 0x0A]"
| "role_prefixed other_role (OtherMessage c) = other_role @ '': '' @ c @ [CHR 0x0A]"

text \<open>The messages the loop's two \<open>isinstance\<close> tests accept.\<close>

fun human_or_ai :: "message \<Rightarrow> bool" where
  "human_or_ai (HumanMessage c) = True"
| "human_or_ai (AIMessage c) = True"
| "human_or_ai (OtherMessage c) = False"

section \<open>utils.py: resolve_urls\<close>

record site =
  web_uri :: string

definition url_prefix :: string where
  "url_prefix = ''https://vertexaisearch.cloud.google.com/id/''"

definition short_url_of :: "int \<Rightarrow> nat \<Rightarrow> string" where
  "short_url_of ident idx = url_prefix @ str_int ident @ ''-'' @ str_nat idx"

text \<open>The loop over \<open>enumerate(urls)\<close>; the dictionary is a map from URL to short URL.\<close>

fun resolve_loop :: "int \<Rightarrow> (nat \<times> string) list \<Rightarrow> (string \<rightharpoonup> string) \<Rightarrow> (string \<rightharpoonup> string)" where
  "resolve_loop ident [] resolved_map = resolved_map"
| "resolve_loop ident ((idx, url) # rest) resolved_map =
     resolve_loop ident rest
       (case resolved_map url of
          None \<Rightarrow> resolved_map(url \<mapsto> short_url_of ident idx)
        | Some _ \<Rightarrow> resolved_map)"

definition resolve_urls :: "site list \<Rightarrow> int \<Rightarrow> (string \<rightharpoonup> string)" where
  "resolve_urls urls_to_resolve ident =
     resolve_loop ident (enumerate 0 (map web_uri urls_to_resolve)) Map.empty"

text \<open>The index of the first occurrence of a URL in a list.\<close>

definition first_index :: "'a \<Rightarrow> 'a list \<Rightarrow> nat" where
  "first_index u xs = length (takeWhile (\<lambda>x. x \<noteq> u) xs)"

section \<open>utils.py: insert_citation_markers\<close>

text \<open>
  One segment of a citation. \<open>short_url\<close> comes from \<open>resolved_urls_map.get(uri, None)\<close> in
  \<open>get_citations\<close>, so it may be \<open>None\<close>, which an f-string renders as the text \<open>None\<close>.
\<close>

record segment =
  label :: string
  short_url :: "string option"

record citation =
  start_index :: int
  end_index :: int
  segments :: "segment list"

definition str_opt :: "string option \<Rightarrow> string" where
  "str_opt v = (case v of None \<Rightarrow> ''None'' | Some s \<Rightarrow> s)"

text \<open>The inner loop building \<open>marker_to_insert\<close>.\<close>

fun marker_loop :: "string \<Rightarrow> segment list \<Rightarrow> string" where
  "marker_loop marker_to_insert [] = marker_to_insert"
| "marker_loop marker_to_insert (s # ss) =
     marker_loop (marker_to_insert @ '' ['' @ label s @ '']('' @ str_opt (short_url s) @ '')'') ss"

definition marker_of :: "citation \<Rightarrow> string" where
  "marker_of c = marker_loop [] (segments c)"

text \<open>
  Python's slices \<open>s[:i]\<close> and \<open>s[i:]\<close>: a negative index counts from the end, and the
  result is clipped to the string.
\<close>

definition slice_to :: "'a list \<Rightarrow> int \<Rightarrow> 'a list" where
  "slice_to s i = (if i < 0 then take (nat (int (length s) + i)) s else take (nat i) s)"

definition slice_from :: "'a list \<Rightarrow> int \<Rightarrow> 'a list" where
  "slice_from s i = (if i < 0 then drop (nat (int (length s) + i)) s else drop (nat i) s)"

text \<open>
  \<open>sorted(citations_list, key=(end_index, start_index), reverse=True)\<close>: keys compared
  lexicographically, descending, and citations with equal keys keep their original order
  (Python's sort is stable, also with \<open>reverse=True\<close>).
\<close>

definition key_le :: "citation \<Rightarrow> citation \<Rightarrow> bool" where
  "key_le a b \<longleftrightarrow>
     end_index a < end_index b \<or> (end_index a = end_index b \<and> start_index a \<le> start_index b)"

fun insert_desc :: "citation \<Rightarrow> citation list \<Rightarrow> citation list" where
  "insert_desc c [] = [c]"
| "insert_desc c (d # ds) = (if key_le d c then c # d # ds else d # insert_desc c ds)"

definition sorted_citations :: "citation list \<Rightarrow> citation list" where
  "sorted_citations citations_list = foldr insert_desc citations_list []"

fun insert_loop :: "string \<Rightarrow> citation list \<Rightarrow> string" where
  "insert_loop modified_text [] = modified_text"
| "insert_loop modified_text (c # cs) =
     insert_loop (slice_to modified_text (end_index c) @ marker_of c
                    @ slice_from modified_text (end_index c)) cs"

definition insert_citation_markers :: "string \<Rightarrow> citation list \<Rightarrow> string" where
  "insert_citation_markers text citations_list =
     insert_loop text (sorted_citations citations_list)"

text \<open>
  The text a list of citations sorted by descending end index should produce: the last
  marker of the original text goes at its end index, the markers before it go into the
  part of the original text before that index.
\<close>

fun markers_at_original :: "string \<Rightarrow> citation list \<Rightarrow> string" where
  "markers_at_original text [] = text"
| "markers_at_original text (c # cs) =
     markers_at_original (take (nat (end_index c)) text) cs @ marker_of c
       @ drop (nat (end_index c)) text"

text \<open>The end indices of a list never increase from one citation to the next.\<close>

fun desc_ends :: "citation list \<Rightarrow> bool" where
  "desc_ends [] = True"
| "desc_ends (c # cs) = ((\<forall>d \<in> set cs. end_index d \<le> end_index c) \<and> desc_ends cs)"

section \<open>graph.py: strings\<close>

text \<open>
  Python's \<open>s.replace(old, new)\<close>: the occurrences of \<open>old\<close> are found from the left and
  do not overlap; an empty \<open>old\<close> matches before every character and at the end.
\<close>

function replace_str :: "string \<Rightarrow> string \<Rightarrow> string \<Rightarrow> string" where
  "replace_str old new [] = (if old = [] then new else [])"
| "replace_str old new (c # cs) =
     (if old = [] then new @ c # replace_str old new cs
      else if prefix old (c # cs) then new @ replace_str old new (drop (length old) (c # cs))
      else c # replace_str old new cs)"
  by pat_completeness auto
termination
  by (relation "measure (\<lambda>(old, new, s). length s)") auto

text \<open>\<open>sep.join(xs)\<close>.\<close>

fun join :: "string \<Rightarrow> string list \<Rightarrow> string" where
  "join sep [] = []"
| "join sep [x] = x"
| "join sep (x # y # ys) = x @ sep @ join sep (y # ys)"

section \<open>graph.py: data\<close>

datatype error = Exception string | KeyError string

text \<open>An entry of \<open>sources_gathered\<close>: the dictionary with keys value, short_url and label.\<close>

record source =
  src_value :: string
  src_short_url :: string
  src_label :: string

text \<open>
  One item of the search response; \<open>item.get(key, "")\<close> reads a missing key as the empty
  string, so a missing key is the empty string here.
\<close>

record item =
  link :: string
  title :: string
  snippet :: string

text \<open>What \<open>custom_search_client.cse().list(...).execute()\<close> does: it raises, or returns the
  response, of which the function reads \<open>items\<close> only.\<close>

datatype web_response = Raised string | Items "item list"

text \<open>
  One document of the vector database's answer. \<open>score_text\<close> is the score as
  \<open>{score:.3f}\<close> prints it; \<open>filename\<close> is \<open>doc.get('metadata', {}).get('filename')\<close>.
\<close>

record document =
  doc_id :: string
  score_text :: string
  doc_source :: string
  doc_content :: string
  filename :: "string option"

text \<open>
  What \<open>vector_client.query_documents\<close> does: it raises, or returns a dictionary with an
  \<open>error\<close> key (and its \<open>timeout\<close> flag), or a dictionary with \<open>documents\<close>.
\<close>

datatype kb_response = KbRaised string | KbError string bool | KbDocuments "document list"

text \<open>The state update a retrieval node returns.\<close>

record update =
  u_sources_gathered :: "source list"
  u_search_query :: "string list"
  u_web_research_result :: "string list"
  u_kb_search_status :: "string option"
  u_kb_search_progress :: "string option"

datatype node = WebResearch | KnowledgeBaseResearch

datatype send = Send (send_node: node) (send_query: string) (send_id: int)

datatype route = FinalizeAnswer | Sends "send list"

text \<open>The answer of the reflection model (\<open>Reflection\<close> in tools_and_schemas).\<close>

record verdict =
  v_is_sufficient :: bool
  v_knowledge_gap :: string
  v_follow_up_queries :: "string list"

text \<open>
  The graph's state dictionary. \<open>research_loop_count\<close> and \<open>max_research_loops\<close> may be
  absent (\<open>None\<close>): the code reads them with \<open>state.get\<close>.
\<close>

record state =
  messages :: "message list"
  search_query :: "string list"
  web_research_result :: "string list"
  sources_gathered :: "source list"
  research_loop_count :: "int option"
  max_research_loops :: "int option"
  is_sufficient :: bool
  knowledge_gap :: string
  follow_up_queries :: "string list"
  number_of_ran_queries :: nat

section \<open>graph.py: continue_to_web_research\<close>

fun fan_out :: "(nat \<times> string) list \<Rightarrow> send list \<Rightarrow> send list" where
  "fan_out [] research_nodes = research_nodes"
| "fan_out ((idx, q) # rest) research_nodes =
     fan_out rest (research_nodes @ [Send WebResearch q (int (idx * 2)),
                                     Send KnowledgeBaseResearch q (int (idx * 2 + 1))])"

definition continue_to_web_research :: "string list \<Rightarrow> send list" where
  "continue_to_web_research query_list = fan_out (enumerate 0 query_list) []"

section \<open>graph.py: web_research\<close>

definition web_short_url :: "nat \<Rightarrow> string" where
  "web_short_url idx = ''['' @ str_nat idx @ '']''"

definition web_source :: "nat \<Rightarrow> item \<Rightarrow> source" where
  "web_source idx it =
     \<lparr>src_value = link it, src_short_url = web_short_url idx,
      src_label = (if title it \<noteq> [] then title it else ''Source '' @ str_nat (idx + 1))\<rparr>"

text \<open>The loop over \<open>enumerate(search_results)\<close>, with \<open>sources_gathered\<close> and
  \<open>modified_text\<close> as accumulators.\<close>

fun web_loop :: "(nat \<times> item) list \<Rightarrow> source list \<Rightarrow> string \<Rightarrow> source list \<times> string" where
  "web_loop [] srcs modified_text = (srcs, modified_text)"
| "web_loop ((idx, it) # rest) srcs modified_text =
     (if link it \<noteq> []
      then web_loop rest (srcs @ [web_source idx it])
             (replace_str (link it) (web_short_url idx) modified_text)
      else web_loop rest srcs modified_text)"

text \<open>The \<open>except Exception\<close> branch prints the error and raises it again.\<close>

definition web_research :: "web_response \<Rightarrow> string \<Rightarrow> error + update" where
  "web_research response q =
     (case response of
        Raised msg \<Rightarrow> Inl (Exception msg)
      | Items search_results \<Rightarrow>
          (case web_loop (enumerate 0 search_results) []
                  (join [CHR 0x0A] (map snippet search_results)) of
             (srcs, modified_text) \<Rightarrow>
               Inr \<lparr>u_sources_gathered = srcs, u_search_query = [q],
                    u_web_research_result = [modified_text],
                    u_kb_search_status = None, u_kb_search_progress = None\<rparr>))"

section \<open>graph.py: knowledge_base_research\<close>

definition kb_short_url :: "nat \<Rightarrow> string" where
  "kb_short_url idx = ''[KB-'' @ str_nat (idx + 1) @ '']''"

definition kb_source :: "nat \<Rightarrow> document \<Rightarrow> source" where
  "kb_source idx doc =
     \<lparr>src_value = doc_source doc, src_short_url = kb_short_url idx,
      src_label = (case filename doc of Some f \<Rightarrow> f | None \<Rightarrow> ''doc_'' @ doc_id doc)\<rparr>"

text \<open>The three lines appended to \<open>formatted_content\<close> for one document.\<close>

definition kb_lines :: "nat \<Rightarrow> document \<Rightarrow> string" where
  "kb_lines idx doc =
     ''Document '' @ str_nat (idx + 1) @ '' (Score: '' @ score_text doc @ ''):'' @ [CHR 0x0A]
     @ ''Source: '' @ doc_source doc @ [CHR 0x0A]
     @ ''Content: '' @ doc_content doc @ [CHR 0x0A, CHR 0x0A]"

text \<open>The loop over \<open>enumerate(documents)\<close>; the replacement acts on all of
  \<open>formatted_content\<close> built so far.\<close>

fun kb_loop :: "(nat \<times> document) list \<Rightarrow> source list \<Rightarrow> string \<Rightarrow> source list \<times> string" where
  "kb_loop [] srcs formatted_content = (srcs, formatted_content)"
| "kb_loop ((idx, doc) # rest) srcs formatted_content =
     kb_loop rest (srcs @ [kb_source idx doc])
       (replace_str (doc_content doc)
          (take 200 (doc_content doc) @ ''... '' @ kb_short_url idx)
          (formatted_content @ kb_lines idx doc))"

text \<open>
  \<open>tunnel\<close> is what \<open>ssh_tunnel_manager.ensure_tunnel()\<close> returns. Every path of the source
  returns a state update: the outer \<open>except Exception\<close> turns a raised exception into one.
\<close>

definition knowledge_base_research :: "bool \<Rightarrow> kb_response \<Rightarrow> string \<Rightarrow> update" where
  "knowledge_base_research tunnel result q =
     (if \<not> tunnel then
        \<lparr>u_sources_gathered = [], u_search_query = [q],
         u_web_research_result = [''SSH tunnel connection failed''],
         u_kb_search_status = Some ''failed'',
         u_kb_search_progress = Some ''SSH tunnel connection failed''\<rparr>
      else case result of
        KbError err timeout \<Rightarrow>
          (if timeout then
             \<lparr>u_sources_gathered = [], u_search_query = [q],
              u_web_research_result = [''Vector database search timed out after 30 seconds''],
              u_kb_search_status = Some ''timeout'', u_kb_search_progress = Some err\<rparr>
           else
             \<lparr>u_sources_gathered = [], u_search_query = [q],
              u_web_research_result = [''Knowledge base search error: '' @ err],
              u_kb_search_status = Some ''error'', u_kb_search_progress = Some err\<rparr>)
      | KbDocuments documents \<Rightarrow>
          (if documents = [] then
             \<lparr>u_sources_gathered = [], u_search_query = [q],
              u_web_research_result =
                [''No relevant documents found in knowledge base for this query.''],
              u_kb_search_status = Some ''completed'',
              u_kb_search_progress = Some ''Search completed - no relevant documents found''\<rparr>
           else
             (case kb_loop (enumerate 0 documents) []
                     (''Knowledge Base Search Results (Found '' @ str_nat (length documents)
                        @ '' documents):'' @ [CHR 0x0A, CHR 0x0A]) of
                (srcs, formatted_content) \<Rightarrow>
                  \<lparr>u_sources_gathered = srcs, u_search_query = [q],
                   u_web_research_result = [formatted_content],
                   u_kb_search_status = Some ''completed'',
                   u_kb_search_progress =
                     Some (''Successfully found '' @ str_nat (length documents)
                             @ '' relevant documents'')\<rparr>))
      | KbRaised msg \<Rightarrow>
          \<lparr>u_sources_gathered = [], u_search_query = [q],
           u_web_research_result = [''Knowledge base search error: '' @ msg],
           u_kb_search_status = Some ''error'', u_kb_search_progress = Some msg\<rparr>)"

section \<open>graph.py: reflection and evaluate_research\<close>

text \<open>
  \<open>reflection\<close> with the model's answer \<open>result\<close> given; the returned dictionary is written
  over the state's keys of the same names.
\<close>

definition reflection :: "verdict \<Rightarrow> state \<Rightarrow> state" where
  "reflection result st =
     (let count = (case research_loop_count st of None \<Rightarrow> 0 | Some n \<Rightarrow> n) + 1
      in st\<lparr>is_sufficient := v_is_sufficient result,
             knowledge_gap := v_knowledge_gap result,
             follow_up_queries := v_follow_up_queries result,
             research_loop_count := Some count,
             number_of_ran_queries := length (search_query st)\<rparr>)"

fun follow_up_loop :: "nat \<Rightarrow> (nat \<times> string) list \<Rightarrow> send list \<Rightarrow> send list" where
  "follow_up_loop ran_queries [] research_nodes = research_nodes"
| "follow_up_loop ran_queries ((idx, q) # rest) research_nodes =
     (let base_id = int ran_queries + int (idx * 2)
      in follow_up_loop ran_queries rest
           (research_nodes @ [Send WebResearch q base_id,
                              Send KnowledgeBaseResearch q (base_id + 1)]))"

text \<open>
  \<open>configurable_max\<close> is \<open>configurable.max_research_loops\<close>. Python's \<open>or\<close> reads
  \<open>state["research_loop_count"]\<close> only when \<open>is_sufficient\<close> is false.
\<close>

definition evaluate_research :: "int \<Rightarrow> state \<Rightarrow> error + route" where
  "evaluate_research configurable_max st =
     (let max_loops = (case max_research_loops st of Some m \<Rightarrow> m | None \<Rightarrow> configurable_max)
      in if is_sufficient st then Inr FinalizeAnswer
         else case research_loop_count st of
                None \<Rightarrow> Inl (KeyError ''research_loop_count'')
              | Some c \<Rightarrow>
                  if c \<ge> max_loops then Inr FinalizeAnswer
                  else Inr (Sends (follow_up_loop (number_of_ran_queries st)
                                     (enumerate 0 (follow_up_queries st)) [])))"

section \<open>The graph: one round after the other\<close>

text \<open>
  What the graph's code does not fix: the two backends, by query; the reflection model's
  answer, by round; and \<open>merge_sources\<close>, the reducer that folds the sources of an update
  into the state's \<open>sources_gathered\<close>. The reducers are declared in agent/state.py, which
  is not among the sources, so this one is a parameter: nothing below depends on what it
  does.
\<close>

record world =
  web_backend :: "string \<Rightarrow> web_response"
  tunnel_up :: "string \<Rightarrow> bool"
  kb_backend :: "string \<Rightarrow> kb_response"
  reflect :: "nat \<Rightarrow> verdict"
  merge_sources :: "source list \<Rightarrow> source list \<Rightarrow> source list"

text \<open>
  Modelled from the spec: the reducers of \<open>search_query\<close> and \<open>web_research_result\<close> are
  declared in agent/state.py, which is not among the sources. The spec's ResearchState
  keeps the queries issued and the finding chunks as append-only sequences, so an update's
  queries and findings are appended to the state's. The sources go through
  \<open>merge_sources\<close>.
\<close>

definition apply_update :: "world \<Rightarrow> state \<Rightarrow> update \<Rightarrow> state" where
  "apply_update w st u =
     st\<lparr>search_query := search_query st @ u_search_query u,
        web_research_result := web_research_result st @ u_web_research_result u,
        sources_gathered := merge_sources w (sources_gathered st) (u_sources_gathered u)\<rparr>"

fun run_task :: "world \<Rightarrow> send \<Rightarrow> error + update" where
  "run_task w (Send WebResearch q i) = web_research (web_backend w q) q"
| "run_task w (Send KnowledgeBaseResearch q i) =
     Inr (knowledge_base_research (tunnel_up w q) (kb_backend w q) q)"

text \<open>The tasks of a round, their updates folded in the order of the sends; an exception
  of one task ends the run.\<close>

fun run_round :: "world \<Rightarrow> state \<Rightarrow> send list \<Rightarrow> error + state" where
  "run_round w st [] = Inr st"
| "run_round w st (s # ss) =
     (case run_task w s of
        Inl e \<Rightarrow> Inl e
      | Inr u \<Rightarrow> run_round w (apply_update w st u) ss)"

text \<open>
  How a run ends: \<open>Finalized\<close> when the router names finalize_answer (whose edge leads to
  END), \<open>Halted\<close> when the router returns no Send at all, so that no node is scheduled and
  finalize_answer never runs, \<open>Aborted\<close> when a node raises. Each carries the sends of
  every round executed.
\<close>

datatype outcome =
  Finalized state "send list list"
| Halted state "send list list"
| Aborted error

datatype step = Stop outcome | Next state "send list"

text \<open>One round: the retrieval tasks, then reflection, then the router.\<close>

definition round_step :: "world \<Rightarrow> int \<Rightarrow> state \<Rightarrow> send list \<Rightarrow> send list list \<Rightarrow> step" where
  "round_step w configurable_max st sends trace =
     (case run_round w st sends of
        Inl e \<Rightarrow> Stop (Aborted e)
      | Inr st1 \<Rightarrow>
          (let st2 = reflection (reflect w (length trace)) st1
           in case evaluate_research configurable_max st2 of
                Inl e \<Rightarrow> Stop (Aborted e)
              | Inr FinalizeAnswer \<Rightarrow> Stop (Finalized st2 (trace @ [sends]))
              | Inr (Sends research_nodes) \<Rightarrow>
                  if research_nodes = [] then Stop (Halted st2 (trace @ [sends]))
                  else Next st2 research_nodes))"

text \<open>The rounds still allowed by the budget.\<close>

definition rounds_left :: "int \<Rightarrow> state \<Rightarrow> nat" where
  "rounds_left configurable_max st =
     nat ((case max_research_loops st of Some m \<Rightarrow> m | None \<Rightarrow> configurable_max)
          - (case research_loop_count st of None \<Rightarrow> 0 | Some n \<Rightarrow> n))"

function run_loop :: "world \<Rightarrow> int \<Rightarrow> state \<Rightarrow> send list \<Rightarrow> send list list \<Rightarrow> outcome" where
  "run_loop w configurable_max st sends trace =
     (case round_step w configurable_max st sends trace of
        Stop out \<Rightarrow> out
      | Next st' research_nodes \<Rightarrow>
          run_loop w configurable_max st' research_nodes (trace @ [sends]))"
  by pat_completeness auto
termination
proof (relation "measure (\<lambda>(w, configurable_max, st, sends, trace). rounds_left configurable_max st)")
  show "wf (measure (\<lambda>(w, configurable_max, st, sends, trace). rounds_left configurable_max st))"
    by simp
next
  fix w :: world and configurable_max :: int and st st' :: state
    and sends research_nodes :: "send list" and trace :: "send list list"
  assume step: "round_step w configurable_max st sends trace = Next st' research_nodes"
  have keep: "research_loop_count st1 = research_loop_count st0
              \<and> max_research_loops st1 = max_research_loops st0"
    if "run_round w st0 sends = Inr st1" for st0 st1
    using that
  proof (induction sends arbitrary: st0)
    case Nil
    then show ?case by simp
  next
    case (Cons s ss)
    then show ?case
      by (auto simp: apply_update_def split: sum.splits)
  qed
  from step obtain st1 where r: "run_round w st sends = Inr st1"
    by (auto simp: round_step_def split: sum.splits)
  from step r have st': "st' = reflection (reflect w (length trace)) st1"
    by (auto simp: round_step_def Let_def split: sum.splits route.splits if_splits)
  from step r st' have lt:
    "\<exists>c. research_loop_count st' = Some c
        \<and> c < (case max_research_loops st' of Some m \<Rightarrow> m | None \<Rightarrow> configurable_max)"
    by (auto simp: round_step_def evaluate_research_def Let_def
             split: sum.splits route.splits if_splits option.splits)
  have cnt: "research_loop_count st'
               = Some ((case research_loop_count st of None \<Rightarrow> 0 | Some n \<Rightarrow> n) + 1)"
    and mx: "max_research_loops st' = max_research_loops st"
    using keep[OF r] by (simp_all add: st' reflection_def Let_def)
  from lt cnt mx have "rounds_left configurable_max st' < rounds_left configurable_max st"
    by (auto simp: rounds_left_def split: option.splits)
  then show "((w, configurable_max, st', research_nodes, trace @ [sends]),
              (w, configurable_max, st, sends, trace))
             \<in> measure (\<lambda>(w, configurable_max, st, sends, trace). rounds_left configurable_max st)"
    by simp
qed

declare run_loop.simps [simp del]

text \<open>The state a run starts from; \<open>max_loops\<close> is the caller's \<open>max_research_loops\<close>, if
  given.\<close>

definition initial_state :: "message list \<Rightarrow> int option \<Rightarrow> state" where
  "initial_state msgs max_loops =
     \<lparr>messages = msgs, search_query = [], web_research_result = [], sources_gathered = [],
      research_loop_count = None, max_research_loops = max_loops, is_sufficient = False,
      knowledge_gap = [], follow_up_queries = [], number_of_ran_queries = 0\<rparr>"

text \<open>The run from the query list that generate_query returns. With no query there is no
  Send, and no node is scheduled.\<close>

definition run_graph :: "world \<Rightarrow> int \<Rightarrow> message list \<Rightarrow> int option \<Rightarrow> string list \<Rightarrow> outcome" where
  "run_graph w configurable_max msgs max_loops query_list =
     (let research_nodes = continue_to_web_research query_list
      in if research_nodes = [] then Halted (initial_state msgs max_loops) []
         else run_loop w configurable_max (initial_state msgs max_loops) research_nodes [])"

section \<open>Invariants of the loop\<close>

text \<open>The round budget in force, and the round counter as \<open>state.get(..., 0)\<close> reads it.\<close>

definition eff_max :: "int \<Rightarrow> state \<Rightarrow> int" where
  "eff_max cfg st = (case max_research_loops st of Some m \<Rightarrow> m | None \<Rightarrow> cfg)"

definition count0 :: "state \<Rightarrow> int" where
  "count0 st = (case research_loop_count st of None \<Rightarrow> 0 | Some n \<Rightarrow> n)"

text \<open>
  What holds whenever a round starts: the counter equals the number of rounds executed,
  every task so far has appended one query, the ids issued so far (with those of the round
  about to run) count up from 0, and a round after the first starts only within budget.
\<close>

definition loop_inv :: "int \<Rightarrow> state \<Rightarrow> send list \<Rightarrow> send list list \<Rightarrow> bool" where
  "loop_inv cfg st sends trace \<longleftrightarrow>
     count0 st = int (length trace)
     \<and> length (search_query st) = length (concat trace)
     \<and> map send_id (concat trace @ sends) = map int [0 ..< length (concat trace @ sends)]
     \<and> (trace = [] \<or> int (length trace) < eff_max cfg st)"

text \<open>What holds of the state and the executed rounds when a run ends without an exception.\<close>

definition run_ok :: "int \<Rightarrow> int option \<Rightarrow> state \<Rightarrow> send list list \<Rightarrow> bool" where
  "run_ok cfg ml st tr \<longleftrightarrow>
     research_loop_count st = Some (int (length tr))
     \<and> max_research_loops st = ml
     \<and> map send_id (concat tr) = map int [0 ..< length (concat tr)]
     \<and> int (length tr) \<le> max 1 (case ml of Some m \<Rightarrow> m | None \<Rightarrow> cfg)"

fun outcome_ok :: "int \<Rightarrow> int option \<Rightarrow> outcome \<Rightarrow> bool" where
  "outcome_ok cfg ml (Finalized st tr) = run_ok cfg ml st tr"
| "outcome_ok cfg ml (Halted st tr) = run_ok cfg ml st tr"
| "outcome_ok cfg ml (Aborted e) = True"

section \<open>Concrete collaborators\<close>

text \<open>
  Modelled from the spec: a reducer for the sources that does what the spec's
  CitationRegistry does on \<open>register\<close>: a record whose canonical value is already present
  is not stored again, any other record is stored after those registered before it. It is
  the reducer of the concrete collaborators below.
\<close>

fun register_sources :: "source list \<Rightarrow> source list \<Rightarrow> source list" where
  "register_sources registry [] = registry"
| "register_sources registry (s # ss) =
     register_sources
       (if src_value s \<in> set (map src_value registry) then registry else registry @ [s]) ss"

text \<open>Backends that find nothing, and a reflection model that is never satisfied and
  proposes no follow-up query.\<close>

definition quiet_world :: world where
  "quiet_world =
     \<lparr>web_backend = (\<lambda>q. Items []), tunnel_up = (\<lambda>q. True),
      kb_backend = (\<lambda>q. KbDocuments []),
      reflect = (\<lambda>n. \<lparr>v_is_sufficient = False, v_knowledge_gap = ''gap'',
                        v_follow_up_queries = []\<rparr>),
      merge_sources = register_sources\<rparr>"

text \<open>Backends that find nothing, and a reflection model that always asks for one more query.\<close>

definition follow_up_world :: world where
  "follow_up_world =
     \<lparr>web_backend = (\<lambda>q. Items []), tunnel_up = (\<lambda>q. True),
      kb_backend = (\<lambda>q. KbDocuments []),
      reflect = (\<lambda>n. \<lparr>v_is_sufficient = False, v_knowledge_gap = ''gap'',
                        v_follow_up_queries = [''f'']\<rparr>),
      merge_sources = register_sources\<rparr>"

text \<open>
  The scenario of the spec: the web search answers the first query with the sources u1, u2
  and the second with u1, u3; the knowledge base times out on every query.
\<close>

definition scenario_world :: "(nat \<Rightarrow> verdict) \<Rightarrow> world" where
  "scenario_world r =
     \<lparr>web_backend = (\<lambda>q. if q = ''q1''
         then Items [\<lparr>link = ''u1'', title = ''T1'', snippet = ''a''\<rparr>,
                     \<lparr>link = ''u2'', title = ''T2'', snippet = ''b''\<rparr>]
         else Items [\<lparr>link = ''u1'', title = ''T1'', snippet = ''a''\<rparr>,
                     \<lparr>link = ''u3'', title = ''T3'', snippet = ''c''\<rparr>]),
      tunnel_up = (\<lambda>q. True),
      kb_backend = (\<lambda>q. KbError ''Request timeout'' True),
      reflect = r, merge_sources = register_sources\<rparr>"

text \<open>A web search that raises.\<close>

definition failing_web_world :: world where
  "failing_web_world =
     \<lparr>web_backend = (\<lambda>q. Raised ''Search failed''), tunnel_up = (\<lambda>q. True),
      kb_backend = (\<lambda>q. KbDocuments []),
      reflect = (\<lambda>n. \<lparr>v_is_sufficient = True, v_knowledge_gap = [],
                        v_follow_up_queries = []\<rparr>),
      merge_sources = register_sources\<rparr>"

text \<open>Observations of an outcome: its state, whether finalize_answer was reached, and the
  sends of the rounds executed.\<close>

fun final_state :: "outcome \<Rightarrow> state option" where
  "final_state (Finalized st tr) = Some st"
| "final_state (Halted st tr) = Some st"
| "final_state (Aborted e) = None"


fun rounds :: "outcome \<Rightarrow> send list list" where
  "rounds (Finalized st tr) = tr"
| "rounds (Halted st tr) = tr"
| "rounds (Aborted e) = []"


section \<open>Links that look like URLs\<close>



section \<open>Properties of get_research_topic\<close>

lemma topic_loop_concat:
  "topic_loop acc ms = acc @ concat (map (role_prefixed r) (filter human_or_ai ms))"
  by (induction acc ms rule: topic_loop.induct) simp_all

text \<open>
  Claim C8, as stated, fails: a history of two messages that are neither human nor AI
  messages is not empty, yet its topic is the empty string, which is not the role-prefixed
  concatenation of its messages, whatever their role is called.
\<close>

theorem other_messages_dropped_counterexample:
  "get_research_topic [OtherMessage ''s1'', OtherMessage ''s2''] = []
   \<and> (\<forall>r. get_research_topic [OtherMessage ''s1'', OtherMessage ''s2'']
            \<noteq> concat (map (role_prefixed r) [OtherMessage ''s1'', OtherMessage ''s2'']))"
  by (simp add: get_research_topic_def)

text \<open>
  Claim C8, amended. The topic of a history of exactly one message is that message's
  content, whatever the class of the message. The topic of any other history is the
  concatenation, in chronological order, of \<open>User: \<close> content newline for each human
  message and \<open>Assistant: \<close> content newline for each AI message; messages of any other
  class are skipped. When every message is a human or an AI message this is the
  role-prefixed concatenation of all the messages.
\<close>

theorem get_research_topic_user_assistant_lines:
  "get_research_topic [HumanMessage c] = c
   \<and> get_research_topic [AIMessage c] = c
   \<and> get_research_topic [OtherMessage c] = c
   \<and> (length ms \<noteq> 1 \<longrightarrow>
        get_research_topic ms = concat (map (role_prefixed r) (filter human_or_ai ms)))
   \<and> (length ms \<noteq> 1 \<and> (\<forall>m \<in> set ms. human_or_ai m) \<longrightarrow>
        get_research_topic ms = concat (map (role_prefixed r) ms))"
proof -
  have "filter human_or_ai ms = ms" if "\<forall>m \<in> set ms. human_or_ai m"
    using that by (simp add: filter_id_conv)
  then show ?thesis
    by (auto simp: get_research_topic_def topic_loop_concat[of _ _ r])
qed

theorem get_research_topic_user_assistant_lines_witness:
  "get_research_topic [HumanMessage ''what is X''] = ''what is X''
   \<and> get_research_topic [HumanMessage ''a'', OtherMessage ''s'', AIMessage ''b'']
       = ''User: a'' @ [CHR 0x0A] @ ''Assistant: b'' @ [CHR 0x0A]
   \<and> get_research_topic [HumanMessage ''a'', AIMessage ''b'', HumanMessage ''c'']
       = ''User: a'' @ [CHR 0x0A] @ ''Assistant: b'' @ [CHR 0x0A] @ ''User: c'' @ [CHR 0x0A]"
  using get_research_topic_user_assistant_lines
          [of "''what is X''" "[HumanMessage ''a'', OtherMessage ''s'', AIMessage ''b'']"
              "''System''"]
        get_research_topic_user_assistant_lines
          [of "''what is X''" "[HumanMessage ''a'', AIMessage ''b'', HumanMessage ''c'']"
              "''System''"]
  by simp

section \<open>Properties of resolve_urls\<close>

lemma digit_inj:
  "a < 10 \<Longrightarrow> b < 10 \<Longrightarrow> (char_of (48 + a) :: char) = char_of (48 + b) \<Longrightarrow> a = (b::nat)"
  by (simp add: char_of_eq_iff take_bit_eq_mod)

lemma str_nat_nonempty: "str_nat n \<noteq> []"
  by (subst str_nat.simps) simp

lemma str_nat_inj: "str_nat a = str_nat b \<Longrightarrow> a = b"
proof (induction a arbitrary: b rule: str_nat.induct)
  case (1 n)
  show ?case
  proof (cases "n < 10")
    case True
    show ?thesis
    proof (cases "b < 10")
      case True
      with \<open>n < 10\<close> "1.prems" show ?thesis
        by (simp add: str_nat.simps[of n] str_nat.simps[of b] digit_inj)
    next
      case False
      with \<open>n < 10\<close> "1.prems" show ?thesis
        using str_nat_nonempty[of "b div 10"]
        by (simp add: str_nat.simps[of n] str_nat.simps[of b])
    qed
  next
    case False
    show ?thesis
    proof (cases "b < 10")
      case True
      with \<open>\<not> n < 10\<close> "1.prems" show ?thesis
        using str_nat_nonempty[of "n div 10"]
        by (simp add: str_nat.simps[of n] str_nat.simps[of b])
    next
      case bf: False
      from False bf "1.prems"
      have "str_nat (n div 10) @ [char_of (48 + n mod 10)]
              = str_nat (b div 10) @ [char_of (48 + b mod 10)]"
        by (simp add: str_nat.simps[of n] str_nat.simps[of b])
      then have "str_nat (n div 10) = str_nat (b div 10)"
        and c: "(char_of (48 + n mod 10) :: char) = char_of (48 + b mod 10)"
        by simp_all
      then have "n div 10 = b div 10" using "1.IH"[OF False] by simp
      moreover have "n mod 10 = b mod 10" using c by (intro digit_inj) simp_all
      ultimately show ?thesis by (metis div_mult_mod_eq)
    qed
  qed
qed

lemma short_url_of_inj: "short_url_of i a = short_url_of i b \<Longrightarrow> a = b"
  by (simp add: short_url_of_def str_nat_inj)

lemma resolve_loop_lookup:
  "resolve_loop i (enumerate n xs) m u =
     (case m u of Some s \<Rightarrow> Some s
      | None \<Rightarrow> if u \<in> set xs then Some (short_url_of i (n + first_index u xs)) else None)"
proof (induction xs arbitrary: n m)
  case Nil
  then show ?case by (simp split: option.splits)
next
  case (Cons x xs)
  show ?case
    by (simp add: Cons.IH first_index_def split: option.splits)
qed

lemma resolve_urls_lookup:
  "resolve_urls sites i u =
     (if u \<in> set (map web_uri sites)
      then Some (short_url_of i (first_index u (map web_uri sites))) else None)"
  by (simp add: resolve_urls_def resolve_loop_lookup)

lemma first_index_inj:
  "u \<in> set xs \<Longrightarrow> v \<in> set xs \<Longrightarrow> first_index u xs = first_index v xs \<Longrightarrow> u = v"
  unfolding first_index_def
  by (induction xs) (auto split: if_splits)

lemma first_index_first:
  "u \<in> set xs \<Longrightarrow> first_index u xs < length xs \<and> xs ! first_index u xs = u
     \<and> (\<forall>j < first_index u xs. xs ! j \<noteq> u)"
  unfolding first_index_def
proof (induction xs)
  case Nil
  then show ?case by simp
next
  case (Cons x xs)
  show ?case
  proof (cases "x = u")
    case True
    then show ?thesis by simp
  next
    case False
    with Cons have ih: "length (takeWhile (\<lambda>x. x \<noteq> u) xs) < length xs \<and>
       xs ! length (takeWhile (\<lambda>x. x \<noteq> u) xs) = u \<and>
       (\<forall>j<length (takeWhile (\<lambda>x. x \<noteq> u) xs). xs ! j \<noteq> u)" by simp
    show ?thesis using False ih by (auto simp: nth_Cons split: nat.splits)
  qed
qed

text \<open>
  Claim C10. For every list of sites, the keys of the map \<open>resolve_urls\<close> returns are
  exactly the URLs of the list; each URL is mapped to the short URL built from the given
  id and the index of the URL's first occurrence in the list, that is the prefix
  \<open>https://vertexaisearch.cloud.google.com/id/\<close>, the id in decimal, a hyphen and the index
  in decimal; and two distinct URLs of the list receive two distinct short URLs.
\<close>

theorem resolve_urls_first_occurrence:
  "short_url_of i n = ''https://vertexaisearch.cloud.google.com/id/'' @ str_int i @ ''-'' @ str_nat n \<and>
   dom (resolve_urls sites i) = set (map web_uri sites) \<and>
   (\<forall>u \<in> set (map web_uri sites).
      resolve_urls sites i u = Some (short_url_of i (first_index u (map web_uri sites)))
      \<and> first_index u (map web_uri sites) < length sites
      \<and> map web_uri sites ! first_index u (map web_uri sites) = u
      \<and> (\<forall>j < first_index u (map web_uri sites). map web_uri sites ! j \<noteq> u)) \<and>
   (\<forall>u \<in> set (map web_uri sites). \<forall>v \<in> set (map web_uri sites).
      u \<noteq> v \<longrightarrow> resolve_urls sites i u \<noteq> resolve_urls sites i v)"
proof (intro conjI ballI impI)
  show "short_url_of i n
          = ''https://vertexaisearch.cloud.google.com/id/'' @ str_int i @ ''-'' @ str_nat n"
    by (simp add: short_url_of_def url_prefix_def)
next
  show "dom (resolve_urls sites i) = set (map web_uri sites)"
    by (auto simp: resolve_urls_lookup dom_def)
next
  fix u assume u: "u \<in> set (map web_uri sites)"
  then show "resolve_urls sites i u
               = Some (short_url_of i (first_index u (map web_uri sites)))"
    by (simp add: resolve_urls_lookup)
  from first_index_first[OF u]
  show "first_index u (map web_uri sites) < length sites"
    by simp
  from first_index_first[OF u]
  show "map web_uri sites ! first_index u (map web_uri sites) = u"
    by blast
  from first_index_first[OF u]
  show "\<forall>j < first_index u (map web_uri sites). map web_uri sites ! j \<noteq> u"
    by blast
next
  fix u v
  assume u: "u \<in> set (map web_uri sites)" and v: "v \<in> set (map web_uri sites)"
    and ne: "u \<noteq> v"
  show "resolve_urls sites i u \<noteq> resolve_urls sites i v"
  proof
    assume "resolve_urls sites i u = resolve_urls sites i v"
    with u v have "short_url_of i (first_index u (map web_uri sites))
                     = short_url_of i (first_index v (map web_uri sites))"
      by (simp add: resolve_urls_lookup)
    then have "first_index u (map web_uri sites) = first_index v (map web_uri sites)"
      by (rule short_url_of_inj)
    with u v have "u = v" by (rule first_index_inj)
    with ne show False by simp
  qed
qed

theorem resolve_urls_first_occurrence_witness:
  "resolve_urls [\<lparr>web_uri = ''a''\<rparr>, \<lparr>web_uri = ''b''\<rparr>, \<lparr>web_uri = ''a''\<rparr>] 7 ''a''
     = Some ''https://vertexaisearch.cloud.google.com/id/7-0'' \<and>
   resolve_urls [\<lparr>web_uri = ''a''\<rparr>, \<lparr>web_uri = ''b''\<rparr>, \<lparr>web_uri = ''a''\<rparr>] 7 ''b''
     = Some ''https://vertexaisearch.cloud.google.com/id/7-1'' \<and>
   resolve_urls [\<lparr>web_uri = ''a''\<rparr>, \<lparr>web_uri = ''b''\<rparr>, \<lparr>web_uri = ''a''\<rparr>] 7 ''c'' = None \<and>
   resolve_urls [\<lparr>web_uri = ''a''\<rparr>] (- 12) ''a''
     = Some ''https://vertexaisearch.cloud.google.com/id/-12-0''"
proof -
  let ?sites = "[\<lparr>web_uri = ''a''\<rparr>, \<lparr>web_uri = ''b''\<rparr>, \<lparr>web_uri = ''a''\<rparr>]"
  note t = resolve_urls_first_occurrence [of 7 _ ?sites]
  note t' = resolve_urls_first_occurrence [of "- 12" _ "[\<lparr>web_uri = ''a''\<rparr>]"]
  have a: "resolve_urls ?sites 7 ''a'' = Some (short_url_of 7 0)"
    and b: "resolve_urls ?sites 7 ''b'' = Some (short_url_of 7 1)"
    using t by (simp_all add: first_index_def)
  have "''c'' \<notin> dom (resolve_urls ?sites 7)"
    using t by simp
  then have c: "resolve_urls ?sites 7 ''c'' = None" by blast
  have d: "resolve_urls [\<lparr>web_uri = ''a''\<rparr>] (- 12) ''a'' = Some (short_url_of (- 12) 0)"
    using t' by (simp add: first_index_def)
  have s: "short_url_of 7 0 = ''https://vertexaisearch.cloud.google.com/id/7-0''"
    "short_url_of 7 1 = ''https://vertexaisearch.cloud.google.com/id/7-1''"
    "short_url_of (- 12) 0 = ''https://vertexaisearch.cloud.google.com/id/-12-0''"
    by code_simp+
  from a b c d show ?thesis by (simp only: s simp_thms)
qed

section \<open>Properties of insert_citation_markers\<close>

lemma insert_loop_append:
  "\<forall>c \<in> set cs. 0 \<le> end_index c \<and> end_index c \<le> int (length x) \<Longrightarrow>
   insert_loop (x @ s) cs = insert_loop x cs @ s"
proof (induction cs arbitrary: x)
  case Nil
  then show ?case by simp
next
  case (Cons c cs)
  let ?e = "nat (end_index c)"
  let ?x' = "take ?e x @ marker_of c @ drop ?e x"
  from Cons.prems have r: "0 \<le> end_index c" "?e \<le> length x" by auto
  have len: "length x \<le> length ?x'" by simp
  have "\<forall>d \<in> set cs. 0 \<le> end_index d \<and> end_index d \<le> int (length ?x')"
    using Cons.prems len by fastforce
  then have "insert_loop (?x' @ s) cs = insert_loop ?x' cs @ s" by (rule Cons.IH)
  moreover have "slice_to (x @ s) (end_index c) @ marker_of c
                   @ slice_from (x @ s) (end_index c) = ?x' @ s"
    using r by (simp add: slice_to_def slice_from_def)
  moreover have "slice_to x (end_index c) @ marker_of c @ slice_from x (end_index c) = ?x'"
    using r by (simp add: slice_to_def slice_from_def)
  ultimately show ?case by simp
qed

lemma insert_loop_markers_at_original:
  "desc_ends cs \<Longrightarrow> \<forall>c \<in> set cs. 0 \<le> end_index c \<and> end_index c \<le> int (length s) \<Longrightarrow>
   insert_loop s cs = markers_at_original s cs"
proof (induction cs arbitrary: s)
  case Nil
  then show ?case by simp
next
  case (Cons c cs)
  let ?e = "nat (end_index c)"
  from Cons.prems have r: "0 \<le> end_index c" "?e \<le> length s" by auto
  have b: "\<forall>d \<in> set cs. 0 \<le> end_index d \<and> end_index d \<le> int (length (take ?e s))"
    using Cons.prems r by auto
  have "insert_loop s (c # cs) = insert_loop (take ?e s @ (marker_of c @ drop ?e s)) cs"
    using r by (simp add: slice_to_def slice_from_def)
  also have "\<dots> = insert_loop (take ?e s) cs @ marker_of c @ drop ?e s"
    using b by (rule insert_loop_append)
  also have "insert_loop (take ?e s) cs = markers_at_original (take ?e s) cs"
    using Cons.prems b by (intro Cons.IH) simp_all
  finally show ?case by simp
qed

lemma set_insert_desc: "set (insert_desc c ds) = insert c (set ds)"
  by (induction ds) auto

lemma set_sorted_citations: "set (sorted_citations cs) = set cs"
  unfolding sorted_citations_def
  by (induction cs) (simp_all add: set_insert_desc)

lemma desc_ends_insert_desc: "desc_ends ds \<Longrightarrow> desc_ends (insert_desc c ds)"
proof (induction ds)
  case Nil
  then show ?case by simp
next
  case (Cons d ds)
  show ?case
  proof (cases "key_le d c")
    case True
    then have "end_index d \<le> end_index c" by (auto simp: key_le_def)
    with Cons.prems True show ?thesis by fastforce
  next
    case False
    then have "end_index c \<le> end_index d" by (auto simp: key_le_def)
    with Cons False show ?thesis by (auto simp: set_insert_desc)
  qed
qed

lemma desc_ends_sorted_citations: "desc_ends (sorted_citations cs)"
  unfolding sorted_citations_def
  by (induction cs) (simp_all add: desc_ends_insert_desc)

lemma subseq_markers_at_original: "subseq s (markers_at_original s cs)"
proof (induction cs arbitrary: s)
  case Nil
  then show ?case by simp
next
  case (Cons c cs)
  let ?e = "nat (end_index c)"
  have "subseq (take ?e s @ drop ?e s)
          (markers_at_original (take ?e s) cs @ (marker_of c @ drop ?e s))"
    by (intro list_emb_append_mono Cons.IH) (simp add: list_emb_append2)
  then show ?case by simp
qed

lemma mset_insert_desc: "mset (insert_desc c ds) = add_mset c (mset ds)"
  by (induction ds) simp_all

lemma mset_sorted_citations: "mset (sorted_citations cs) = mset cs"
  unfolding sorted_citations_def
  by (induction cs) (simp_all add: mset_insert_desc)

lemma key_le_total: "\<not> key_le d c \<Longrightarrow> key_le c d"
  by (auto simp: key_le_def)

lemma key_le_trans: "key_le a b \<Longrightarrow> key_le b c \<Longrightarrow> key_le a c"
  by (auto simp: key_le_def)

lemma sorted_insert_desc:
  "sorted_wrt (\<lambda>a b. key_le b a) ds \<Longrightarrow> sorted_wrt (\<lambda>a b. key_le b a) (insert_desc c ds)"
proof (induction ds)
  case Nil
  then show ?case by simp
next
  case (Cons d ds)
  show ?case
  proof (cases "key_le d c")
    case True
    with Cons.prems have "\<forall>x \<in> set (d # ds). key_le x c"
      by (auto intro: key_le_trans)
    with True Cons.prems show ?thesis by simp
  next
    case False
    then have "key_le c d" by (rule key_le_total)
    with False Cons show ?thesis by (auto simp: set_insert_desc)
  qed
qed

lemma sorted_sorted_citations: "sorted_wrt (\<lambda>a b. key_le b a) (sorted_citations cs)"
  unfolding sorted_citations_def
  by (induction cs) (simp_all add: sorted_insert_desc)

lemma marker_loop_concat:
  "marker_loop acc ss
     = acc @ concat (map (\<lambda>s. '' ['' @ label s @ '']('' @ str_opt (short_url s) @ '')'') ss)"
  by (induction acc ss rule: marker_loop.induct) simp_all

text \<open>
  Claim C9. With an empty citations list \<open>insert_citation_markers\<close> returns the text
  unchanged. The marker of a citation is, for each of its segments in order, a space and
  the markdown link of the segment's label and short URL. The citations are processed in
  descending order of (end index, start index), each of them once. When every
  \<open>end_index\<close> lies within the text, the output is the original text with each citation's
  marker inserted at that citation's original end index: the marker of the citation with
  the greatest end index is followed by the original text from that index on, and the
  other markers are inserted the same way into the original text before it. The original
  text is therefore a subsequence of the output.
\<close>

theorem insert_citation_markers_original_positions:
  "insert_citation_markers text [] = text
   \<and> marker_of c
       = concat (map (\<lambda>s. '' ['' @ label s @ '']('' @ str_opt (short_url s) @ '')'') (segments c))
   \<and> str_opt None = ''None'' \<and> str_opt (Some x) = x
   \<and> mset (sorted_citations cs) = mset cs
   \<and> sorted_wrt (\<lambda>a b. key_le b a) (sorted_citations cs)
   \<and> ((\<forall>c \<in> set cs. 0 \<le> end_index c \<and> end_index c \<le> int (length text)) \<longrightarrow>
        insert_citation_markers text cs = markers_at_original text (sorted_citations cs)
        \<and> desc_ends (sorted_citations cs)
        \<and> set (sorted_citations cs) = set cs
        \<and> subseq text (insert_citation_markers text cs))"
proof -
  have a: "insert_citation_markers text [] = text"
    by (simp add: insert_citation_markers_def sorted_citations_def)
  have m: "marker_of c
       = concat (map (\<lambda>s. '' ['' @ label s @ '']('' @ str_opt (short_url s) @ '')'') (segments c))"
    by (simp add: marker_of_def marker_loop_concat)
  have o: "str_opt None = ''None''" "str_opt (Some x) = x"
    by (simp_all add: str_opt_def)
  have b: "insert_citation_markers text cs = markers_at_original text (sorted_citations cs)"
    if r: "\<forall>c \<in> set cs. 0 \<le> end_index c \<and> end_index c \<le> int (length text)"
    unfolding insert_citation_markers_def
    using desc_ends_sorted_citations r
    by (intro insert_loop_markers_at_original) (simp_all add: set_sorted_citations)
  have c: "(\<forall>c \<in> set cs. 0 \<le> end_index c \<and> end_index c \<le> int (length text)) \<longrightarrow>
        insert_citation_markers text cs = markers_at_original text (sorted_citations cs)
        \<and> desc_ends (sorted_citations cs)
        \<and> set (sorted_citations cs) = set cs
        \<and> subseq text (insert_citation_markers text cs)"
    using b subseq_markers_at_original desc_ends_sorted_citations set_sorted_citations
    by metis
  from a m o mset_sorted_citations sorted_sorted_citations c show ?thesis
    by blast
qed

theorem insert_citation_markers_original_positions_witness:
  "insert_citation_markers ''hello world''
     [\<lparr>start_index = 0, end_index = 5, segments = [\<lparr>label = ''a'', short_url = Some ''u''\<rparr>]\<rparr>,
      \<lparr>start_index = 6, end_index = 11, segments = [\<lparr>label = ''b'', short_url = None\<rparr>]\<rparr>]
     = ''hello [a](u) world [b](None)''
   \<and> insert_citation_markers ''hello world''
     [\<lparr>start_index = 0, end_index = 5, segments = [\<lparr>label = ''a'', short_url = Some ''u''\<rparr>]\<rparr>,
      \<lparr>start_index = 0, end_index = 5, segments = [\<lparr>label = ''a'', short_url = Some ''u''\<rparr>]\<rparr>]
     = ''hello [a](u) [a](u) world''
   \<and> insert_citation_markers ''hello world''
     [\<lparr>start_index = 0, end_index = 5,
       segments = [\<lparr>label = ''a'', short_url = Some ''u''\<rparr>,
                   \<lparr>label = ''b'', short_url = Some ''v''\<rparr>]\<rparr>]
     = ''hello [a](u) [b](v) world''
   \<and> subseq ''hello world'' ''hello [a](u) world [b](None)''"
proof -
  let ?a = "\<lparr>start_index = 0, end_index = 5,
             segments = [\<lparr>label = ''a'', short_url = Some ''u''\<rparr>]\<rparr>"
  let ?b = "\<lparr>start_index = 6, end_index = 11,
             segments = [\<lparr>label = ''b'', short_url = None\<rparr>]\<rparr>"
  let ?ab = "\<lparr>start_index = 0, end_index = 5,
              segments = [\<lparr>label = ''a'', short_url = Some ''u''\<rparr>,
                          \<lparr>label = ''b'', short_url = Some ''v''\<rparr>]\<rparr>"
  have h1: "\<forall>c \<in> set [?a, ?b]. 0 \<le> end_index c \<and> end_index c \<le> int (length ''hello world'')"
    and h2: "\<forall>c \<in> set [?a, ?a]. 0 \<le> end_index c \<and> end_index c \<le> int (length ''hello world'')"
    and h3: "\<forall>c \<in> set [?ab]. 0 \<le> end_index c \<and> end_index c \<le> int (length ''hello world'')"
    by simp_all
  note ev = sorted_citations_def key_le_def marker_of_def str_opt_def
  have "insert_citation_markers ''hello world'' [?a, ?b]
          = markers_at_original ''hello world'' (sorted_citations [?a, ?b])"
    using insert_citation_markers_original_positions [of "''hello world''" _ _ "[?a, ?b]"] h1
    by blast
  then have v1: "insert_citation_markers ''hello world'' [?a, ?b] = ''hello [a](u) world [b](None)''"
    by (simp add: ev)
  have "insert_citation_markers ''hello world'' [?a, ?a]
          = markers_at_original ''hello world'' (sorted_citations [?a, ?a])"
    using insert_citation_markers_original_positions [of "''hello world''" _ _ "[?a, ?a]"] h2
    by blast
  then have v2: "insert_citation_markers ''hello world'' [?a, ?a] = ''hello [a](u) [a](u) world''"
    by (simp add: ev)
  have "insert_citation_markers ''hello world'' [?ab]
          = markers_at_original ''hello world'' (sorted_citations [?ab])"
    using insert_citation_markers_original_positions [of "''hello world''" _ _ "[?ab]"] h3
    by blast
  then have v3: "insert_citation_markers ''hello world'' [?ab] = ''hello [a](u) [b](v) world''"
    by (simp add: ev)
  have "subseq ''hello world'' (insert_citation_markers ''hello world'' [?a, ?b])"
    using insert_citation_markers_original_positions [of "''hello world''" _ _ "[?a, ?b]"] h1
    by blast
  with v1 v2 v3 show ?thesis by simp
qed

section \<open>Properties of the loop\<close>

lemma upt_two: "[a ..< a + 2 * Suc k] = a # Suc a # [a + 2 ..< a + 2 + 2 * k]"
  by (simp add: upt_conv_Cons)

lemma fan_out_ids:
  "map send_id (fan_out (enumerate n qs) acc)
     = map send_id acc @ map int [2 * n ..< 2 * n + 2 * length qs]"
proof (induction qs arbitrary: n acc)
  case Nil
  then show ?case by simp
next
  case (Cons q qs)
  have "[2 * n ..< 2 * n + 2 * length (q # qs)]
          = (2 * n) # Suc (2 * n) # [2 * Suc n ..< 2 * Suc n + 2 * length qs]"
    using upt_two[of "2 * n" "length qs"] by simp
  then show ?case by (simp add: Cons.IH mult.commute)
qed

lemma fan_out_length: "length (fan_out xs acc) = length acc + 2 * length xs"
  by (induction xs acc rule: fan_out.induct) simp_all

lemma follow_up_loop_ids:
  "map send_id (follow_up_loop r (enumerate n qs) acc)
     = map send_id acc @ map int [r + 2 * n ..< r + 2 * n + 2 * length qs]"
proof (induction qs arbitrary: n acc)
  case Nil
  then show ?case by simp
next
  case (Cons q qs)
  have "[r + 2 * n ..< r + 2 * n + 2 * length (q # qs)]
          = (r + 2 * n) # Suc (r + 2 * n) # [r + 2 * Suc n ..< r + 2 * Suc n + 2 * length qs]"
    using upt_two[of "r + 2 * n" "length qs"] by simp
  then show ?case by (simp add: Cons.IH Let_def mult.commute)
qed

lemma follow_up_loop_length: "length (follow_up_loop r xs acc) = length acc + 2 * length xs"
  by (induction r xs acc rule: follow_up_loop.induct) (simp_all add: Let_def)

lemma web_research_query: "web_research resp q = Inr u \<Longrightarrow> u_search_query u = [q]"
  by (auto simp: web_research_def split: web_response.splits prod.splits)

lemma knowledge_base_research_query: "u_search_query (knowledge_base_research t r q) = [q]"
  by (simp add: knowledge_base_research_def split: kb_response.splits prod.splits)

lemma run_task_query: "run_task w s = Inr u \<Longrightarrow> length (u_search_query u) = 1"
proof (cases s)
  case (Send n q i)
  assume r: "run_task w s = Inr u"
  show ?thesis
  proof (cases n)
    case WebResearch
    with Send r show ?thesis by (auto dest: web_research_query)
  next
    case KnowledgeBaseResearch
    with Send r show ?thesis by (auto simp: knowledge_base_research_query)
  qed
qed

lemma run_round_state:
  "run_round w st sends = Inr st1 \<Longrightarrow>
     length (search_query st1) = length (search_query st) + length sends
     \<and> research_loop_count st1 = research_loop_count st
     \<and> max_research_loops st1 = max_research_loops st"
proof (induction sends arbitrary: st)
  case Nil
  then show ?case by simp
next
  case (Cons s ss)
  from Cons.prems obtain u where u: "run_task w s = Inr u"
    and r: "run_round w (apply_update w st u) ss = Inr st1"
    by (auto split: sum.splits)
  from Cons.IH[OF r] run_task_query[OF u] show ?case
    by (simp add: apply_update_def)
qed


lemma reflection_fields:
  "research_loop_count (reflection v st) = Some (count0 st + 1)"
  "max_research_loops (reflection v st) = max_research_loops st"
  "number_of_ran_queries (reflection v st) = length (search_query st)"
  "is_sufficient (reflection v st) = v_is_sufficient v"
  "follow_up_queries (reflection v st) = v_follow_up_queries v"
  "search_query (reflection v st) = search_query st"
  by (simp_all add: reflection_def count0_def Let_def)

lemma evaluate_research_sends:
  "evaluate_research cfg st = Inr (Sends ss) \<Longrightarrow>
     (\<exists>c. research_loop_count st = Some c \<and> c < eff_max cfg st) \<and> \<not> is_sufficient st
     \<and> length ss = 2 * length (follow_up_queries st)
     \<and> map send_id ss = map int [number_of_ran_queries st ..< number_of_ran_queries st + length ss]"
  using follow_up_loop_ids[of "number_of_ran_queries st" 0 "follow_up_queries st" "[]"]
  by (auto simp: evaluate_research_def eff_max_def Let_def follow_up_loop_length
           split: if_splits option.splits)

lemma round_step_Next:
  assumes inv: "loop_inv cfg st sends trace"
    and step: "round_step w cfg st sends trace = Next st' ss"
  shows "loop_inv cfg st' ss (trace @ [sends])"
proof -
  from step obtain st1 where r: "run_round w st sends = Inr st1"
    by (auto simp: round_step_def split: sum.splits)
  let ?st2 = "reflection (reflect w (length trace)) st1"
  from step r have st': "st' = ?st2" and ev: "evaluate_research cfg ?st2 = Inr (Sends ss)"
    by (auto simp: round_step_def Let_def split: sum.splits route.splits if_splits)
  note rs = run_round_state[OF r]
  from rs have c1: "count0 st1 = count0 st" by (simp add: count0_def)
  from inv have i: "count0 st = int (length trace)"
    "length (search_query st) = length (concat trace)"
    "map send_id (concat trace @ sends) = map int [0 ..< length (concat trace @ sends)]"
    by (simp_all add: loop_inv_def)
  note es = evaluate_research_sends[OF ev]
  have cnt: "count0 st' = int (length (trace @ [sends]))"
    using i c1 by (simp add: st' count0_def reflection_fields)
  have len: "length (search_query st') = length (concat (trace @ [sends]))"
    using rs i by (simp add: st' reflection_fields)
  have nrq: "number_of_ran_queries ?st2 = length (concat trace @ sends)"
    using rs i by (simp add: reflection_fields)
  have ids: "map send_id (concat (trace @ [sends]) @ ss)
               = map int [0 ..< length (concat (trace @ [sends]) @ ss)]"
  proof -
    let ?n = "length (concat trace @ sends)"
    have e1: "map send_id (concat trace @ sends) = map int [0 ..< ?n]"
      using i by simp
    have e2: "map send_id ss = map int [?n ..< ?n + length ss]"
      using es nrq by simp
    have e3: "[0 ..< ?n + length ss] = [0 ..< ?n] @ [?n ..< ?n + length ss]"
      by (metis le_add1 upt_add_eq_append zero_le)
    have "map send_id ((concat trace @ sends) @ ss)
            = map send_id (concat trace @ sends) @ map send_id ss"
      by (rule map_append)
    also have "\<dots> = map int [0 ..< ?n] @ map int [?n ..< ?n + length ss]"
      by (simp only: e1 e2)
    also have "\<dots> = map int [0 ..< ?n + length ss]"
      by (simp only: e3 map_append)
    finally show ?thesis by (simp add: add.assoc)
  qed
  have bound: "int (length (trace @ [sends])) < eff_max cfg st'"
    using es cnt by (auto simp: st' reflection_fields count0_def)
  show ?thesis
    unfolding loop_inv_def using cnt len ids bound by blast
qed

lemma round_step_Stop:
  assumes inv: "loop_inv cfg st sends trace"
    and step: "round_step w cfg st sends trace = Stop out"
  shows "outcome_ok cfg (max_research_loops st) out"
proof -
  show ?thesis
  proof (cases "run_round w st sends")
    case (Inl e)
    with step show ?thesis by (auto simp: round_step_def)
  next
    case (Inr st1)
    let ?st2 = "reflection (reflect w (length trace)) st1"
    note rs = run_round_state[OF Inr]
    from rs have c1: "count0 st1 = count0 st" by (simp add: count0_def)
    from inv have i: "count0 st = int (length trace)"
      "map send_id (concat trace @ sends) = map int [0 ..< length (concat trace @ sends)]"
      "trace = [] \<or> int (length trace) < eff_max cfg st"
      by (simp_all add: loop_inv_def)
    have ok: "run_ok cfg (max_research_loops st) ?st2 (trace @ [sends])"
      unfolding run_ok_def using i c1 rs
      by (auto simp: reflection_fields eff_max_def)
    from step Inr ok show ?thesis
      by (auto simp: round_step_def Let_def split: sum.splits route.splits if_splits)
  qed
qed

lemma round_step_max:
  "round_step w cfg st sends trace = Next st' ss \<Longrightarrow> max_research_loops st' = max_research_loops st"
  by (auto simp: round_step_def Let_def reflection_fields dest: run_round_state
           split: sum.splits route.splits if_splits)

lemma run_loop_ok:
  "loop_inv cfg st sends trace \<Longrightarrow>
     outcome_ok cfg (max_research_loops st) (run_loop w cfg st sends trace)"
proof (induction w cfg st sends trace rule: run_loop.induct)
  case (1 w cfg st sends trace)
  show ?case
  proof (cases "round_step w cfg st sends trace")
    case (Stop out)
    with round_step_Stop[OF "1.prems" Stop] show ?thesis
      by (simp add: run_loop.simps[of w cfg st sends trace])
  next
    case (Next st' ss)
    from round_step_Next[OF "1.prems" Next]
    have "outcome_ok cfg (max_research_loops st') (run_loop w cfg st' ss (trace @ [sends]))"
      by (rule "1.IH"[OF Next])
    with Next round_step_max[OF Next] show ?thesis
      by (simp add: run_loop.simps[of w cfg st sends trace])
  qed
qed

lemma continue_ids:
  "map send_id (continue_to_web_research qs) = map int [0 ..< 2 * length qs]"
  "length (continue_to_web_research qs) = 2 * length qs"
  using fan_out_ids[of 0 qs "[]"]
  by (simp_all add: continue_to_web_research_def fan_out_length)

lemma run_graph_ok: "qs \<noteq> [] \<Longrightarrow> outcome_ok cfg ml (run_graph w cfg msgs ml qs)"
proof -
  assume ne: "qs \<noteq> []"
  let ?st = "initial_state msgs ml"
  have "loop_inv cfg ?st (continue_to_web_research qs) []"
    by (simp add: loop_inv_def count0_def initial_state_def continue_ids)
  from run_loop_ok[OF this, of w]
  have "outcome_ok cfg ml (run_loop w cfg ?st (continue_to_web_research qs) [])"
    by (simp add: initial_state_def)
  moreover have "continue_to_web_research qs \<noteq> []"
    using ne continue_ids(2)[of qs] by auto
  ultimately show ?thesis
    by (simp add: run_graph_def Let_def)
qed

text \<open>The equations that evaluate a run on concrete collaborators.\<close>

lemmas run_eval = run_graph_def continue_to_web_research_def initial_state_def
        run_loop.simps round_step_def web_research_def knowledge_base_research_def
        reflection_def evaluate_research_def apply_update_def Let_def






text \<open>
  Claim C5. A round with N queries spawns exactly 2 N tasks, one per query and backend;
  the initial round's ids are 0 .. 2 N - 1; a later round's ids start at the number of
  queries run so far; over a whole run the ids of all tasks count up from 0 without a gap,
  so no id is given to two tasks.
\<close>

theorem ordinals_never_reused:
  "length (continue_to_web_research qs) = length qs * 2
   \<and> map send_id (continue_to_web_research qs) = map int [0 ..< length qs * 2]
   \<and> (evaluate_research cfg st = Inr (Sends ss) \<longrightarrow>
        length ss = length (follow_up_queries st) * 2
        \<and> map send_id ss
            = map int [number_of_ran_queries st ..< number_of_ran_queries st + length ss])
   \<and> (qs \<noteq> [] \<longrightarrow>
        run_graph w cfg msgs ml qs = Finalized st' tr \<or> run_graph w cfg msgs ml qs = Halted st' tr \<longrightarrow>
        map send_id (concat tr) = map int [0 ..< length (concat tr)]
        \<and> distinct (map send_id (concat tr)))"
proof (intro conjI impI)
  show "length (continue_to_web_research qs) = length qs * 2"
    by (simp add: continue_ids)
  show "map send_id (continue_to_web_research qs) = map int [0 ..< length qs * 2]"
    by (simp add: continue_ids mult.commute)
next
  assume ev: "evaluate_research cfg st = Inr (Sends ss)"
  from evaluate_research_sends[OF ev]
  show "length ss = length (follow_up_queries st) * 2" by simp
  from evaluate_research_sends[OF ev]
  show "map send_id ss
          = map int [number_of_ran_queries st ..< number_of_ran_queries st + length ss]"
    by blast
next
  assume ne: "qs \<noteq> []"
    and r: "run_graph w cfg msgs ml qs = Finalized st' tr \<or> run_graph w cfg msgs ml qs = Halted st' tr"
  from run_graph_ok[OF ne, of cfg ml w msgs] r
  show ids: "map send_id (concat tr) = map int [0 ..< length (concat tr)]"
    by (auto simp: run_ok_def)
  show "distinct (map send_id (concat tr))"
    unfolding ids by (simp add: distinct_map)
qed

theorem ordinals_never_reused_witness:
  "rounds (run_graph follow_up_world 2 [] None [''q''])
     = [[Send WebResearch ''q'' 0, Send KnowledgeBaseResearch ''q'' 1],
        [Send WebResearch ''f'' 2, Send KnowledgeBaseResearch ''f'' 3]]
   \<and> distinct (map send_id (concat (rounds (run_graph follow_up_world 2 [] None [''q'']))))"
proof -
  let ?tr = "[[Send WebResearch ''q'' 0, Send KnowledgeBaseResearch ''q'' 1],
              [Send WebResearch ''f'' 2, Send KnowledgeBaseResearch ''f'' 3]]"
  let ?st = "the (final_state (run_graph follow_up_world 2 [] None [''q'']))"
  have run: "run_graph follow_up_world 2 [] None [''q''] = Finalized ?st ?tr"
    by (simp add: run_eval follow_up_world_def)
  have ne: "[''q''] \<noteq> []" by simp
  from ordinals_never_reused
         [where qs = "[''q'']" and w = follow_up_world and cfg = 2 and msgs = "[]"
            and ml = None and st' = ?st and tr = ?tr] run ne
  have "distinct (map send_id (concat ?tr))" by blast
  moreover from run have "rounds (run_graph follow_up_world 2 [] None [''q'']) = ?tr"
    by (metis rounds.simps(1))
  ultimately show ?thesis by simp
qed


text \<open>
  Claim C3, at the input where the code departs from it: budget 2, a first verdict that is
  not sufficient and has no follow-up query. The router returns an empty list of sends,
  no node is scheduled, and the run ends after one round without finalize_answer.
\<close>

theorem empty_follow_up_ends_without_finalizing:
  "evaluate_research 2
     (reflection \<lparr>v_is_sufficient = False, v_knowledge_gap = ''gap'', v_follow_up_queries = []\<rparr>
        (initial_state [HumanMessage ''what is X''] None)) = Inr (Sends []) \<and>
   (\<exists>st. run_graph quiet_world 2 [HumanMessage ''what is X''] None [''q'']
           = Halted st [[Send WebResearch ''q'' 0, Send KnowledgeBaseResearch ''q'' 1]]
         \<and> research_loop_count st = Some 1)"
  by (simp add: run_graph_def continue_to_web_research_def initial_state_def
        run_loop.simps round_step_def web_research_def knowledge_base_research_def
        reflection_def evaluate_research_def apply_update_def quiet_world_def Let_def)




text \<open>
  Claim C2, as stated, fails for the web search: its \<open>except\<close> branch raises the exception
  again, and the run is aborted.
\<close>

theorem web_failure_counterexample:
  "web_research (Raised ''Search failed'') ''q'' = Inl (Exception ''Search failed'')
   \<and> run_graph failing_web_world 2 [] None [''q''] = Aborted (Exception ''Search failed'')"
  by (simp add: run_eval failing_web_world_def)

lemma run_round_fold:
  "\<forall>s \<in> set sends. send_node s = WebResearch \<longrightarrow> (\<exists>items. web_backend w (send_query s) = Items items)
   \<Longrightarrow> \<exists>us. list_all2 (\<lambda>s u. run_task w s = Inr u) sends us
            \<and> run_round w st sends = Inr (foldl (apply_update w) st us)"
proof (induction sends arbitrary: st)
  case Nil
  then show ?case by simp
next
  case (Cons s ss)
  obtain n q i where s: "s = Send n q i" by (cases s)
  have "\<exists>u. run_task w s = Inr u"
  proof (cases n)
    case WebResearch
    with Cons.prems s obtain items where "web_backend w q = Items items" by auto
    with s WebResearch show ?thesis
      by (simp add: web_research_def split: prod.splits)
  next
    case KnowledgeBaseResearch
    with s show ?thesis by simp
  qed
  then obtain u where u: "run_task w s = Inr u" ..
  from Cons.prems have "\<forall>s \<in> set ss. send_node s = WebResearch \<longrightarrow>
      (\<exists>items. web_backend w (send_query s) = Items items)" by simp
  from Cons.IH[OF this, of "apply_update w st u"]
  obtain us where "list_all2 (\<lambda>s u. run_task w s = Inr u) ss us"
    and "run_round w (apply_update w st u) ss = Inr (foldl (apply_update w) (apply_update w st u) us)"
    by blast
  with u have "list_all2 (\<lambda>s u. run_task w s = Inr u) (s # ss) (u # us)
      \<and> run_round w st (s # ss) = Inr (foldl (apply_update w) st (u # us))"
    by simp
  then show ?case by blast
qed

lemma foldl_apply_update_results:
  "web_research_result (foldl (apply_update w) st us)
     = web_research_result st @ concat (map u_web_research_result us)"
  by (induction us arbitrary: st) (simp_all add: apply_update_def)

lemma round_step_after_round:
  assumes "run_round w st sends = Inr st1"
  shows "(\<forall>e. round_step w cfg st sends trace \<noteq> Stop (Aborted e))
     \<and> ((\<exists>ss. round_step w cfg st sends trace
                 = Next (reflection (reflect w (length trace)) st1) ss)
        \<or> round_step w cfg st sends trace
            = Stop (Finalized (reflection (reflect w (length trace)) st1) (trace @ [sends]))
        \<or> round_step w cfg st sends trace
            = Stop (Halted (reflection (reflect w (length trace)) st1) (trace @ [sends])))"
proof -
  let ?st2 = "reflection (reflect w (length trace)) st1"
  have "\<exists>c. research_loop_count ?st2 = Some c" by (simp add: reflection_def Let_def)
  then have "\<forall>e. evaluate_research cfg ?st2 \<noteq> Inl e"
    by (auto simp: evaluate_research_def Let_def split: if_splits)
  with assms show ?thesis
    by (auto simp: round_step_def Let_def split: sum.splits route.splits)
qed

text \<open>
  Claim C2, amended. Every failure of a knowledge-base task (no tunnel, an error answer
  with or without time-out, any exception) is recovered inside the task: it returns a
  placeholder finding with no sources and never raises, and its finding is appended to
  the state. A failing web search is raised again by web_research. A round in which no
  web search raises folds the updates of all its tasks into the state, placeholders
  included, in the order of the sends, and goes on to reflection with that state: the
  round never aborts, and the state the router decides on is the reflection of the folded
  state, which keeps all the findings.
\<close>

theorem knowledge_base_failure_recovered:
  "(\<not> tunnel \<or> (\<exists>err t. result = KbError err t) \<or> (\<exists>m. result = KbRaised m) \<longrightarrow>
      u_sources_gathered (knowledge_base_research tunnel result q) = []
      \<and> length (u_web_research_result (knowledge_base_research tunnel result q)) = 1
      \<and> u_search_query (knowledge_base_research tunnel result q) = [q])
   \<and> run_task w (Send KnowledgeBaseResearch q i)
       = Inr (knowledge_base_research (tunnel_up w q) (kb_backend w q) q)
   \<and> run_round w st [Send KnowledgeBaseResearch q i]
       = Inr (apply_update w st (knowledge_base_research (tunnel_up w q) (kb_backend w q) q))
   \<and> web_research_result (apply_update w st u) = web_research_result st @ u_web_research_result u
   \<and> web_research_result (reflection v st) = web_research_result st
   \<and> web_research (Raised msg) q = Inl (Exception msg)
   \<and> ((\<forall>s \<in> set sends. send_node s = WebResearch \<longrightarrow>
          (\<exists>items. web_backend w (send_query s) = Items items)) \<longrightarrow>
        (\<exists>us. list_all2 (\<lambda>s u. run_task w s = Inr u) sends us
           \<and> run_round w st sends = Inr (foldl (apply_update w) st us)
           \<and> web_research_result (foldl (apply_update w) st us)
               = web_research_result st @ concat (map u_web_research_result us)
           \<and> (\<forall>e. round_step w cfg st sends trace \<noteq> Stop (Aborted e))
           \<and> ((\<exists>ss. round_step w cfg st sends trace
                       = Next (reflection (reflect w (length trace))
                                 (foldl (apply_update w) st us)) ss)
              \<or> round_step w cfg st sends trace
                  = Stop (Finalized (reflection (reflect w (length trace))
                                       (foldl (apply_update w) st us)) (trace @ [sends]))
              \<or> round_step w cfg st sends trace
                  = Stop (Halted (reflection (reflect w (length trace))
                                    (foldl (apply_update w) st us)) (trace @ [sends])))))"
proof (intro conjI impI)
  assume "\<not> tunnel \<or> (\<exists>err t. result = KbError err t) \<or> (\<exists>m. result = KbRaised m)"
  then show "u_sources_gathered (knowledge_base_research tunnel result q) = []"
    and "length (u_web_research_result (knowledge_base_research tunnel result q)) = 1"
    by (auto simp: knowledge_base_research_def)
next
  show "u_search_query (knowledge_base_research tunnel result q) = [q]"
    by (rule knowledge_base_research_query)
next
  show "run_task w (Send KnowledgeBaseResearch q i)
       = Inr (knowledge_base_research (tunnel_up w q) (kb_backend w q) q)" by simp
next
  show "run_round w st [Send KnowledgeBaseResearch q i]
       = Inr (apply_update w st (knowledge_base_research (tunnel_up w q) (kb_backend w q) q))"
    by simp
next
  show "web_research_result (apply_update w st u)
          = web_research_result st @ u_web_research_result u"
    by (simp add: apply_update_def)
next
  show "web_research_result (reflection v st) = web_research_result st"
    by (simp add: reflection_def Let_def)
next
  show "web_research (Raised msg) q = Inl (Exception msg)"
    by (simp add: web_research_def)
next
  assume "\<forall>s \<in> set sends. send_node s = WebResearch \<longrightarrow>
          (\<exists>items. web_backend w (send_query s) = Items items)"
  from run_round_fold[OF this, of st]
  obtain us where a: "list_all2 (\<lambda>s u. run_task w s = Inr u) sends us"
    and b: "run_round w st sends = Inr (foldl (apply_update w) st us)"
    by blast
  from a b foldl_apply_update_results[of w st us] round_step_after_round[OF b, of cfg trace]
  show "\<exists>us. list_all2 (\<lambda>s u. run_task w s = Inr u) sends us
           \<and> run_round w st sends = Inr (foldl (apply_update w) st us)
           \<and> web_research_result (foldl (apply_update w) st us)
               = web_research_result st @ concat (map u_web_research_result us)
           \<and> (\<forall>e. round_step w cfg st sends trace \<noteq> Stop (Aborted e))
           \<and> ((\<exists>ss. round_step w cfg st sends trace
                       = Next (reflection (reflect w (length trace))
                                 (foldl (apply_update w) st us)) ss)
              \<or> round_step w cfg st sends trace
                  = Stop (Finalized (reflection (reflect w (length trace))
                                       (foldl (apply_update w) st us)) (trace @ [sends]))
              \<or> round_step w cfg st sends trace
                  = Stop (Halted (reflection (reflect w (length trace))
                                    (foldl (apply_update w) st us)) (trace @ [sends])))"
    by blast
qed

theorem knowledge_base_failure_recovered_witness:
  "knowledge_base_research True (KbError ''Request timeout'' True) ''q1''
     = \<lparr>u_sources_gathered = [], u_search_query = [''q1''],
        u_web_research_result = [''Vector database search timed out after 30 seconds''],
        u_kb_search_status = Some ''timeout'', u_kb_search_progress = Some ''Request timeout''\<rparr>
   \<and> (\<exists>st1. run_round (scenario_world (reflect quiet_world)) (initial_state [] (Some 1))
               (continue_to_web_research [''q1'', ''q2'']) = Inr st1
          \<and> web_research_result st1
              = [''a'' @ [CHR 0x0A] @ ''b'', ''Vector database search timed out after 30 seconds'',
                 ''a'' @ [CHR 0x0A] @ ''c'', ''Vector database search timed out after 30 seconds'']
          \<and> round_step (scenario_world (reflect quiet_world)) 2 (initial_state [] (Some 1))
               (continue_to_web_research [''q1'', ''q2'']) []
              = Stop (Finalized (reflection (reflect quiet_world 0) st1)
                        [continue_to_web_research [''q1'', ''q2'']]))"
proof -
  let ?w = "scenario_world (reflect quiet_world)"
  let ?i = "initial_state [] (Some 1)"
  let ?sends = "continue_to_web_research [''q1'', ''q2'']"
  have h: "\<not> True \<or> (\<exists>err t. KbError ''Request timeout'' True = KbError err t)
           \<or> (\<exists>m. KbError ''Request timeout'' True = KbRaised m)" by blast
  have nr: "\<forall>s \<in> set ?sends. send_node s = WebResearch \<longrightarrow>
             (\<exists>items. web_backend ?w (send_query s) = Items items)"
    by (simp add: continue_to_web_research_def scenario_world_def)
  note t = knowledge_base_failure_recovered
             [where tunnel = True and result = "KbError ''Request timeout'' True" and q = "''q1''"
                and w = ?w and st = ?i and sends = ?sends and cfg = 2 and trace = "[]"]
  have k: "knowledge_base_research True (KbError ''Request timeout'' True) ''q1''
     = \<lparr>u_sources_gathered = [], u_search_query = [''q1''],
        u_web_research_result = [''Vector database search timed out after 30 seconds''],
        u_kb_search_status = Some ''timeout'', u_kb_search_progress = Some ''Request timeout''\<rparr>"
    by (simp add: knowledge_base_research_def)
  from t nr obtain us where a: "list_all2 (\<lambda>s u. run_task ?w s = Inr u) ?sends us"
    and b: "run_round ?w ?i ?sends = Inr (foldl (apply_update ?w) ?i us)"
    and c: "web_research_result (foldl (apply_update ?w) ?i us)
              = web_research_result ?i @ concat (map u_web_research_result us)"
    and d: "(\<exists>ss. round_step ?w 2 ?i ?sends []
                       = Next (reflection (reflect ?w (length ([] :: send list list)))
                                 (foldl (apply_update ?w) ?i us)) ss)
              \<or> round_step ?w 2 ?i ?sends []
                  = Stop (Finalized (reflection (reflect ?w (length ([] :: send list list)))
                                       (foldl (apply_update ?w) ?i us)) ([] @ [?sends]))
              \<or> round_step ?w 2 ?i ?sends []
                  = Stop (Halted (reflection (reflect ?w (length ([] :: send list list)))
                                    (foldl (apply_update ?w) ?i us)) ([] @ [?sends]))"
    by blast
  from a have "map u_web_research_result us
      = [[''a'' @ [CHR 0x0A] @ ''b''], [''Vector database search timed out after 30 seconds''],
         [''a'' @ [CHR 0x0A] @ ''c''], [''Vector database search timed out after 30 seconds'']]"
    by (auto simp: list_all2_Cons1 continue_to_web_research_def scenario_world_def
          web_research_def knowledge_base_research_def)
  with c have r: "web_research_result (foldl (apply_update ?w) ?i us)
      = [''a'' @ [CHR 0x0A] @ ''b'', ''Vector database search timed out after 30 seconds'',
         ''a'' @ [CHR 0x0A] @ ''c'', ''Vector database search timed out after 30 seconds'']"
    by (simp add: initial_state_def)
  have n1: "\<forall>st2 ss. round_step ?w 2 ?i ?sends [] \<noteq> Next st2 ss"
    and n2: "\<forall>st2 tr. round_step ?w 2 ?i ?sends [] \<noteq> Stop (Halted st2 tr)"
    by (simp_all add: run_eval scenario_world_def quiet_world_def)
  have rw: "reflect ?w = reflect quiet_world" by (simp add: scenario_world_def)
  from d n1 n2 have "round_step ?w 2 ?i ?sends []
      = Stop (Finalized (reflection (reflect quiet_world 0) (foldl (apply_update ?w) ?i us))
                [?sends])"
    by (auto simp: rw)
  with b r k show ?thesis by blast
qed

section \<open>Properties of the sources a task records\<close>












section \<open>Properties of the replacement of links by markers\<close>
















end
